theory Spec2Isabelle
  imports Complex_Main "HOL-Library.Product_Lexorder"
begin

section \<open>Funding curve construction and discount factors\<close>

text \<open>
  A shallow embedding of the curve module \<^verbatim>\<open>202507_work.py\<close>: the day-count function
  \<^verbatim>\<open>year_fraction\<close>, the class \<^verbatim>\<open>FundingCurveBuilder\<close> and the class
  \<^verbatim>\<open>DiscountFactorService\<close>.

  Numbers. A Python \<^verbatim>\<open>float\<close> is idealised: a finite float is a real number and
  arithmetic on finite floats is exact (no rounding, no overflow, no signed zero). The
  two things IEEE arithmetic does that real arithmetic does not, and that the module can
  reach, are kept as values: a division by zero gives an infinity or NaN rather than
  raising (numpy only warns), and these values propagate through later operations.
  Counts of days, years, months and indices are Python's unbounded \<^verbatim>\<open>int\<close>.
\<close>

subsection \<open>Calendar dates\<close>

text \<open>
  \<^verbatim>\<open>datetime.date\<close> of the standard library: an immutable triple of year, month and day.
  Its constructor accepts exactly the triples of \<open>valid_date\<close>; \<open>toordinal\<close> is the
  proleptic Gregorian day number, and \<^verbatim>\<open>(b - a).days\<close> is the difference of the ordinals.
  Dates compare as the tuples \<^verbatim>\<open>(year, month, day)\<close>.
\<close>

record date =
  year :: int
  month :: int
  day :: int

definition is_leap :: "int \<Rightarrow> bool" where
  "is_leap y = (y mod 4 = 0 \<and> (y mod 100 \<noteq> 0 \<or> y mod 400 = 0))"

definition days_before_year :: "int \<Rightarrow> int" where
  "days_before_year y = (y - 1) * 365 + (y - 1) div 4 - (y - 1) div 100 + (y - 1) div 400"

definition DAYS_IN_MONTH :: "int list" where
  "DAYS_IN_MONTH = [31, 28, 31, 30, 31, 30, 31, 31, 30, 31, 30, 31]"

definition DAYS_BEFORE_MONTH :: "int list" where
  "DAYS_BEFORE_MONTH = [0, 31, 59, 90, 120, 151, 181, 212, 243, 273, 304, 334]"

definition days_in_month :: "int \<Rightarrow> int \<Rightarrow> int" where
  "days_in_month y m =
     (if m = 2 \<and> is_leap y then 29 else DAYS_IN_MONTH ! nat (m - 1))"

definition days_before_month :: "int \<Rightarrow> int \<Rightarrow> int" where
  "days_before_month y m =
     DAYS_BEFORE_MONTH ! nat (m - 1) + (if m > 2 \<and> is_leap y then 1 else 0)"

definition valid_date :: "date \<Rightarrow> bool" where
  "valid_date d =
     (1 \<le> year d \<and> year d \<le> 9999 \<and> 1 \<le> month d \<and> month d \<le> 12 \<and>
      1 \<le> day d \<and> day d \<le> days_in_month (year d) (month d))"

definition toordinal :: "date \<Rightarrow> int" where
  "toordinal d = days_before_year (year d) + days_before_month (year d) (month d) + day d"

definition date_key :: "date \<Rightarrow> int \<times> int \<times> int" where
  "date_key d = (year d, month d, day d)"

abbreviation mk_date :: "int \<Rightarrow> int \<Rightarrow> int \<Rightarrow> date" where
  "mk_date y m d \<equiv> \<lparr>year = y, month = m, day = d\<rparr>"

subsection \<open>Errors\<close>

text \<open>
  Every exception the module's own code path can raise is a \<^verbatim>\<open>ValueError\<close> or a
  \<^verbatim>\<open>KeyError\<close>; the constructors tell the raising places apart:
  \<^item> \<open>InvalidConvention c\<close>: \<^verbatim>\<open>ValueError(f"Unsupported convention: {c}")\<close>, raised by
    \<^verbatim>\<open>year_fraction\<close>;
  \<^item> \<open>InsufficientData\<close>: the \<^verbatim>\<open>ValueError\<close> of the interpolator's constructor for
    empty arrays;
  \<^item> \<open>ShapeMismatch\<close>: the \<^verbatim>\<open>ValueError\<close> of the interpolator's constructor for
    arrays of unequal length;
  \<^item> \<open>KeyError\<close>: a dictionary lookup of an absent key.
\<close>

datatype error = InvalidConvention string | InsufficientData | ShapeMismatch | KeyError

subsection \<open>Day counts\<close>

definition year_fraction :: "date \<Rightarrow> date \<Rightarrow> string \<Rightarrow> error + real" where
  "year_fraction start_date end_date convention =
     (let days = toordinal end_date - toordinal start_date in
      if convention = ''ACT/365'' then Inr (real_of_int days / 365)
      else if convention = ''ACT/360'' then Inr (real_of_int days / 360)
      else if convention = ''30/360'' then
        (let d1 = day start_date; d2 = day end_date;
             m1 = month start_date; m2 = month end_date;
             y1 = year start_date; y2 = year end_date;
             D1 = min d1 30;
             D2 = (if d1 < 30 then d2 else min d2 30)
         in Inr (real_of_int ((y2 - y1) * 360 + (m2 - m1) * 30 + (D2 - D1)) / 360))
      else Inl (InvalidConvention convention))"

subsection \<open>Floating-point values\<close>

text \<open>
  The value of a float expression: a finite number, an infinity or NaN. The operations
  follow IEEE 754 on these four kinds of value, which is what numpy computes (with a
  warning, not an exception). A zero divisor is taken as \<open>+0\<close>: the only divisor in the
  module is a difference \<^verbatim>\<open>x_hi - x_lo\<close>, and \<open>a - a\<close> is \<open>+0\<close>.
\<close>

datatype npfloat = Fin real | PInf | NInf | NaN

fun fneg :: "npfloat \<Rightarrow> npfloat" where
  "fneg (Fin a) = Fin (- a)"
| "fneg PInf = NInf"
| "fneg NInf = PInf"
| "fneg NaN = NaN"

fun fadd :: "npfloat \<Rightarrow> npfloat \<Rightarrow> npfloat" where
  "fadd (Fin a) (Fin b) = Fin (a + b)"
| "fadd NaN _ = NaN"
| "fadd _ NaN = NaN"
| "fadd PInf NInf = NaN"
| "fadd NInf PInf = NaN"
| "fadd PInf _ = PInf"
| "fadd _ PInf = PInf"
| "fadd NInf _ = NInf"
| "fadd _ NInf = NInf"

definition inf_of_sign :: "real \<Rightarrow> npfloat" where
  "inf_of_sign a = (if a = 0 then NaN else if 0 < a then PInf else NInf)"

fun fmul :: "npfloat \<Rightarrow> npfloat \<Rightarrow> npfloat" where
  "fmul (Fin a) (Fin b) = Fin (a * b)"
| "fmul NaN _ = NaN"
| "fmul _ NaN = NaN"
| "fmul (Fin a) PInf = inf_of_sign a"
| "fmul (Fin a) NInf = inf_of_sign (- a)"
| "fmul PInf (Fin b) = inf_of_sign b"
| "fmul NInf (Fin b) = inf_of_sign (- b)"
| "fmul PInf PInf = PInf"
| "fmul NInf NInf = PInf"
| "fmul PInf NInf = NInf"
| "fmul NInf PInf = NInf"

definition fdiv :: "real \<Rightarrow> real \<Rightarrow> npfloat" where
  "fdiv a b = (if b \<noteq> 0 then Fin (a / b) else inf_of_sign a)"

fun fexp :: "npfloat \<Rightarrow> npfloat" where
  "fexp (Fin a) = Fin (exp a)"
| "fexp PInf = PInf"
| "fexp NInf = Fin 0"
| "fexp NaN = NaN"

subsection \<open>The linear interpolator\<close>

text \<open>
  \<^verbatim>\<open>scipy.interpolate.interp1d(x, y, kind='linear', fill_value='extrapolate',
  assume_sorted=True)\<close>. The class is library code; the module only calls it, so it is
  modelled from the library's own algorithm, step by step.

  The constructor keeps the two arrays as they are (\<^verbatim>\<open>assume_sorted=True\<close>: no sort)
  and raises \<^verbatim>\<open>ValueError\<close> when they differ in length, and when they are empty (the
  linear kind needs \<^verbatim>\<open>minval = 1\<close> entry). One entry is accepted, and the knots are
  not checked to be distinct.

  A call with extrapolation evaluates \<^verbatim>\<open>_call_linear\<close> and nothing else:
  \<^verbatim>\<open>
    x_new_indices = searchsorted(self.x, x_new)
    x_new_indices = x_new_indices.clip(1, len(self.x)-1).astype(int)
    lo = x_new_indices - 1
    hi = x_new_indices
    x_lo = self.x[lo];  x_hi = self.x[hi]
    y_lo = self._y[lo]; y_hi = self._y[hi]
    slope = (y_hi - y_lo) / (x_hi - x_lo)[:, None]
    y_new = slope*(x_new - x_lo)[:, None] + y_lo
  \<close>
  \<^verbatim>\<open>searchsorted\<close> (side left) on an ascending array returns the first index whose
  entry is not below the value, the length when there is none. \<^verbatim>\<open>clip(lo, hi)\<close> is
  \<^verbatim>\<open>minimum(maximum(a, lo), hi)\<close>, so with one knot the index is clipped to 0 and
  \<^verbatim>\<open>lo\<close> is \<open>-1\<close>, which indexes the last entry as every negative index does.
  The arrays the builder passes are ascending (\<open>tenors_sorted\<close> below), and the clipped
  indices are within the arrays whenever the constructor has accepted them
  (\<open>clipped_indices_in_range\<close> below).
\<close>

datatype interp = Interp (interp_x: "real list") (interp_y: "real list")

definition interp1d :: "real list \<Rightarrow> real list \<Rightarrow> error + interp" where
  "interp1d xs ys =
     (if length ys \<noteq> length xs then Inl ShapeMismatch
      else if length xs < 1 then Inl InsufficientData
      else Inr (Interp xs ys))"

definition searchsorted :: "real list \<Rightarrow> real \<Rightarrow> int" where
  "searchsorted xs v = int (length (takeWhile (\<lambda>a. a < v) xs))"

definition clip :: "int \<Rightarrow> int \<Rightarrow> int \<Rightarrow> int" where
  "clip a lo hi = min (max a lo) hi"

definition take_index :: "real list \<Rightarrow> int \<Rightarrow> real" where
  "take_index xs i = xs ! nat (if i < 0 then i + int (length xs) else i)"

definition call_linear :: "interp \<Rightarrow> real \<Rightarrow> npfloat" where
  "call_linear f x_new =
     (let x_new_indices = clip (searchsorted (interp_x f) x_new) 1 (int (length (interp_x f)) - 1);
          lo = x_new_indices - 1;
          hi = x_new_indices;
          x_lo = take_index (interp_x f) lo;
          x_hi = take_index (interp_x f) hi;
          y_lo = take_index (interp_y f) lo;
          y_hi = take_index (interp_y f) hi;
          slope = fdiv (y_hi - y_lo) (x_hi - x_lo)
      in fadd (fmul slope (Fin (x_new - x_lo))) (Fin y_lo))"

subsection \<open>The curve builder\<close>

text \<open>
  A \<^verbatim>\<open>dict\<close> of dates to rates is an association list in insertion order, with each
  key once. \<^verbatim>\<open>sorted(d.keys())\<close> is the stable sort of the keys by the dates' order;
  \<^verbatim>\<open>d[k]\<close> raises \<^verbatim>\<open>KeyError\<close> for an absent key. The optional argument
  \<^verbatim>\<open>cs_points\<close> is \<open>None\<close> or a dictionary, and \<^verbatim>\<open>if cs_points:\<close> holds for a
  dictionary that is not empty.
\<close>

type_synonym rate_dict = "(date \<times> real) list"

definition keys :: "rate_dict \<Rightarrow> date list" where
  "keys points = map fst points"

definition sorted_dates :: "date list \<Rightarrow> date list" where
  "sorted_dates ds = sort_key date_key ds"

definition getitem :: "rate_dict \<Rightarrow> date \<Rightarrow> error + real" where
  "getitem points d = (case map_of points d of None \<Rightarrow> Inl KeyError | Some r \<Rightarrow> Inr r)"

text \<open>
  The two list comprehensions of \<^verbatim>\<open>__init__\<close>: each runs over the sorted dates from
  left to right and stops at the first exception.
\<close>

fun tenors_of :: "date \<Rightarrow> string \<Rightarrow> date list \<Rightarrow> error + real list" where
  "tenors_of valuation dc [] = Inr []"
| "tenors_of valuation dc (d # ds) =
     (case year_fraction valuation d dc of
        Inl e \<Rightarrow> Inl e
      | Inr t \<Rightarrow>
          (case tenors_of valuation dc ds of
             Inl e \<Rightarrow> Inl e
           | Inr ts \<Rightarrow> Inr (t # ts)))"

fun rates_of :: "rate_dict \<Rightarrow> date list \<Rightarrow> error + real list" where
  "rates_of points [] = Inr []"
| "rates_of points (d # ds) =
     (case getitem points d of
        Inl e \<Rightarrow> Inl e
      | Inr r \<Rightarrow>
          (case rates_of points ds of
             Inl e \<Rightarrow> Inl e
           | Inr rs \<Rightarrow> Inr (r # rs)))"

record FundingCurveBuilder =
  valuation_date :: date
  dc :: string
  ois_dates :: "date list"
  ois_tenors :: "real list"
  ois_rates :: "real list"
  ois_interp :: "interp option"
  cs_interp :: "interp option"
  cs_dates :: "date list option"
  cs_tenors :: "real list option"
  cs_rates :: "real list option"
  total_interp :: "(real \<Rightarrow> npfloat) option"

text \<open>
  \<^verbatim>\<open>FundingCurveBuilder.__init__\<close>. The attribute \<^verbatim>\<open>cs_dates\<close> exists only when spread
  points were given, and \<^verbatim>\<open>total_interp\<close> only after \<^verbatim>\<open>build\<close>: an attribute that is
  not set is \<open>None\<close> here.
\<close>

definition truthy :: "rate_dict option \<Rightarrow> bool" where
  "truthy cs_points = (case cs_points of None \<Rightarrow> False | Some points \<Rightarrow> points \<noteq> [])"

definition FundingCurveBuilder_init ::
    "rate_dict \<Rightarrow> date \<Rightarrow> string \<Rightarrow> rate_dict option \<Rightarrow> error + FundingCurveBuilder" where
  "FundingCurveBuilder_init ois_points valuation convention cs_points =
     (let dates = sorted_dates (keys ois_points) in
      case tenors_of valuation convention dates of
        Inl e \<Rightarrow> Inl e
      | Inr tenors \<Rightarrow>
      (case rates_of ois_points dates of
        Inl e \<Rightarrow> Inl e
      | Inr rates \<Rightarrow>
      (let self = \<lparr>valuation_date = valuation, dc = convention, ois_dates = dates,
                   ois_tenors = tenors, ois_rates = rates, ois_interp = None,
                   cs_interp = None, cs_dates = None, cs_tenors = None, cs_rates = None,
                   total_interp = None\<rparr> in
       if truthy cs_points then
         (let cs = (case cs_points of None \<Rightarrow> [] | Some points \<Rightarrow> points);
              cdates = sorted_dates (keys cs) in
          case tenors_of valuation convention cdates of
            Inl e \<Rightarrow> Inl e
          | Inr ctenors \<Rightarrow>
          (case rates_of cs cdates of
            Inl e \<Rightarrow> Inl e
          | Inr crates \<Rightarrow>
              Inr (self\<lparr>cs_dates := Some cdates, cs_tenors := Some ctenors,
                         cs_rates := Some crates\<rparr>)))
       else Inr (self\<lparr>cs_tenors := None, cs_rates := None\<rparr>))))"

text \<open>
  The closure \<^verbatim>\<open>total_rate\<close> of \<^verbatim>\<open>build\<close>, over the two interpolators it reads from
  \<^verbatim>\<open>self\<close>; \<^verbatim>\<open>float(...)\<close> of a numpy scalar is the same value.
\<close>

definition total_rate :: "interp \<Rightarrow> interp option \<Rightarrow> real \<Rightarrow> npfloat" where
  "total_rate oi ci t =
     (let base = call_linear oi t;
          cs = (case ci of Some c \<Rightarrow> call_linear c t | None \<Rightarrow> Fin 0)
      in fadd base cs)"

text \<open>
  \<^verbatim>\<open>FundingCurveBuilder.build\<close>: the builder with its interpolators set, and the
  returned function. An exception of either constructor ends the call.
\<close>

definition build :: "FundingCurveBuilder \<Rightarrow> error + (FundingCurveBuilder \<times> (real \<Rightarrow> npfloat))" where
  "build self =
     (case interp1d (ois_tenors self) (ois_rates self) of
        Inl e \<Rightarrow> Inl e
      | Inr oi \<Rightarrow>
      (case (case cs_tenors self of
               None \<Rightarrow> Inr (cs_interp self)
             | Some ct \<Rightarrow>
                 (case cs_rates self of
                    None \<Rightarrow> Inl ShapeMismatch
                  | Some cr \<Rightarrow>
                      (case interp1d ct cr of Inl e \<Rightarrow> Inl e | Inr ci \<Rightarrow> Inr (Some ci)))) of
         Inl e \<Rightarrow> Inl e
       | Inr ci \<Rightarrow>
           Inr (self\<lparr>ois_interp := Some oi, cs_interp := ci,
                      total_interp := Some (total_rate oi ci)\<rparr>,
                total_rate oi ci)))"

text \<open>
  The caller's expression
  \<^verbatim>\<open>FundingCurveBuilder(ois_points, valuation_date, dc, cs_points).build()\<close>:
  construction, then \<^verbatim>\<open>build\<close>, keeping the returned function.
\<close>

definition built_curve ::
    "rate_dict \<Rightarrow> date \<Rightarrow> string \<Rightarrow> rate_dict option \<Rightarrow> error + (real \<Rightarrow> npfloat)" where
  "built_curve ois_points valuation convention cs_points =
     (case FundingCurveBuilder_init ois_points valuation convention cs_points of
        Inl e \<Rightarrow> Inl e
      | Inr self \<Rightarrow> (case build self of Inl e \<Rightarrow> Inl e | Inr (self', f) \<Rightarrow> Inr f))"

subsection \<open>The discount factor service\<close>

record DiscountFactorService =
  svc_interp :: "real \<Rightarrow> npfloat"
  svc_valuation_date :: date
  svc_dc :: string

definition DiscountFactorService_init ::
    "(real \<Rightarrow> npfloat) \<Rightarrow> date \<Rightarrow> string \<Rightarrow> DiscountFactorService" where
  "DiscountFactorService_init f valuation convention =
     \<lparr>svc_interp = f, svc_valuation_date = valuation, svc_dc = convention\<rparr>"

definition get_df :: "DiscountFactorService \<Rightarrow> date \<Rightarrow> error + npfloat" where
  "get_df self target_date =
     (case year_fraction (svc_valuation_date self) target_date (svc_dc self) of
        Inl e \<Rightarrow> Inl e
      | Inr t \<Rightarrow>
          (let r = svc_interp self t in Inr (fexp (fmul (fneg r) (Fin t)))))"

subsection \<open>Sample inputs\<close>

text \<open>
  Concrete inputs on which the properties below are instantiated: a valuation date, a
  base mapping of two points (inserted latest first), a spread mapping of two points, and
  a base mapping of one point.
\<close>

abbreviation sample_valuation :: date where
  "sample_valuation \<equiv> mk_date 2024 1 1"

abbreviation sample_ois :: rate_dict where
  "sample_ois \<equiv> [(mk_date 2026 1 1, 7 / 200), (mk_date 2025 1 1, 3 / 100)]"

abbreviation sample_cs :: rate_dict where
  "sample_cs \<equiv> [(mk_date 2025 1 1, 1 / 100), (mk_date 2026 1 1, 1 / 50)]"

abbreviation sample_single :: rate_dict where
  "sample_single \<equiv> [(mk_date 2025 6 30, 3 / 100)]"

section \<open>Properties\<close>

subsection \<open>The calendar: ordinals grow with dates\<close>

lemma div_step:
  fixes n k :: int
  assumes "0 < k"
  shows "(n + 1) div k = n div k + (if (n + 1) mod k = 0 then 1 else 0)"
proof -
  define q where "q = n div k"
  define r where "r = n mod k"
  have n: "n = k * q + r" by (simp add: q_def r_def)
  have r: "0 \<le> r" "r < k" using assms by (simp_all add: r_def)
  show ?thesis
  proof (cases "r + 1 = k")
    case True
    then have eq: "n + 1 = k * (q + 1) + 0" using n by (simp add: algebra_simps)
    have "(n + 1) div k = q + 1"
      by (rule int_div_pos_eq [OF eq]) (use assms in simp_all)
    moreover have "(n + 1) mod k = 0"
      by (rule int_mod_pos_eq [OF eq]) (use assms in simp_all)
    ultimately show ?thesis by (simp add: q_def)
  next
    case False
    have eq: "n + 1 = k * q + (r + 1)" using n by simp
    have bounds: "0 \<le> r + 1" "r + 1 < k" using r False by simp_all
    have "(n + 1) div k = q"
      by (rule int_div_pos_eq [OF eq bounds])
    moreover have "(n + 1) mod k = r + 1"
      by (rule int_mod_pos_eq [OF eq bounds])
    ultimately show ?thesis using r by (simp add: q_def)
  qed
qed

lemma div_by_4: "(y::int) div 4 = (y - 1) div 4 + (if y mod 4 = 0 then 1 else 0)"
  using div_step [of 4 "y - 1"] by simp

lemma div_by_100: "(y::int) div 100 = (y - 1) div 100 + (if y mod 100 = 0 then 1 else 0)"
  using div_step [of 100 "y - 1"] by simp

lemma div_by_400: "(y::int) div 400 = (y - 1) div 400 + (if y mod 400 = 0 then 1 else 0)"
  using div_step [of 400 "y - 1"] by simp

lemma mod_400_100: "(y::int) mod 400 = 0 \<Longrightarrow> y mod 100 = 0"
  using mod_mod_cancel [of 100 400 y] by simp

lemma mod_100_4: "(y::int) mod 100 = 0 \<Longrightarrow> y mod 4 = 0"
  using mod_mod_cancel [of 4 100 y] by simp

lemma days_before_year_step:
  "days_before_year (y + 1) = days_before_year y + (if is_leap y then 366 else 365)"
proof -
  have "days_before_year (y + 1) = y * 365 + y div 4 - y div 100 + y div 400"
    by (simp add: days_before_year_def)
  also have "\<dots> = y * 365 + ((y - 1) div 4 + (if y mod 4 = 0 then 1 else 0))
       - ((y - 1) div 100 + (if y mod 100 = 0 then 1 else 0))
       + ((y - 1) div 400 + (if y mod 400 = 0 then 1 else 0))"
    by (simp only: div_by_4 [of y, symmetric] div_by_100 [of y, symmetric] div_by_400 [of y, symmetric])
  also have "\<dots> = days_before_year y + 365 + (if y mod 4 = 0 then 1 else 0)
      - (if y mod 100 = 0 then 1 else 0) + (if y mod 400 = 0 then 1 else 0)"
    unfolding days_before_year_def by (simp only: algebra_simps)
  finally have "days_before_year (y + 1) = days_before_year y + 365 + (if y mod 4 = 0 then 1 else 0)
      - (if y mod 100 = 0 then 1 else 0) + (if y mod 400 = 0 then 1 else 0)" .
  then show ?thesis
    using mod_400_100 [of y] mod_100_4 [of y] unfolding is_leap_def 
    by (cases "y mod 4 = 0"; cases "y mod 100 = 0"; cases "y mod 400 = 0") simp_all
qed


lemma days_before_year_mono_aux:
  "days_before_year y \<le> days_before_year (y + int k)"
proof (induction k)
  case 0
  then show ?case by simp
next
  case (Suc k)
  have "days_before_year (y + int k) \<le> days_before_year ((y + int k) + 1)"
    by (simp add: days_before_year_step)
  moreover have "(y + int k) + 1 = y + int (Suc k)" by simp
  ultimately show ?case using Suc.IH by simp
qed

lemma days_before_year_mono:
  assumes "a \<le> b" shows "days_before_year a \<le> days_before_year b"
proof -
  have "b = a + int (nat (b - a))" using assms by simp
  then show ?thesis using days_before_year_mono_aux [of a "nat (b - a)"] by simp
qed

lemma month_cases:
  assumes "1 \<le> m" "m \<le> (12::int)"
  shows "m = 1 \<or> m = 2 \<or> m = 3 \<or> m = 4 \<or> m = 5 \<or> m = 6 \<or> m = 7 \<or> m = 8 \<or> m = 9
    \<or> m = 10 \<or> m = 11 \<or> m = 12"
  using assms by arith

lemma days_before_month_nonneg:
  assumes "1 \<le> m" "m \<le> 12"
  shows "0 \<le> days_before_month y m"
  using month_cases [OF assms]
  by (elim disjE) (simp_all add: days_before_month_def DAYS_BEFORE_MONTH_def)

lemma days_before_month_less:
  assumes "1 \<le> m" "m < m'" "m' \<le> 12"
  shows "days_before_month y m + days_in_month y m \<le> days_before_month y m'"
proof -
  have m: "1 \<le> m" "m \<le> 12" and m': "1 \<le> m'" "m' \<le> 12" using assms by simp_all
  show ?thesis
    using month_cases [OF m] month_cases [OF m'] \<open>m < m'\<close>
    by (elim disjE)
      (simp_all add: days_before_month_def days_in_month_def DAYS_BEFORE_MONTH_def
        DAYS_IN_MONTH_def)
qed

lemma days_before_month_in_year:
  assumes "1 \<le> m" "m \<le> 12"
  shows "days_before_month y m + days_in_month y m \<le> (if is_leap y then 366 else 365)"
  using month_cases [OF assms]
  by (elim disjE)
    (simp_all add: days_before_month_def days_in_month_def DAYS_BEFORE_MONTH_def
      DAYS_IN_MONTH_def)

lemma toordinal_year_bounds:
  assumes "valid_date d"
  shows "days_before_year (year d) < toordinal d"
    and "toordinal d \<le> days_before_year (year d + 1)"
proof -
  have m: "1 \<le> month d" "month d \<le> 12"
    and dd: "1 \<le> day d" "day d \<le> days_in_month (year d) (month d)"
    using assms by (simp_all add: valid_date_def)
  show "days_before_year (year d) < toordinal d"
    using days_before_month_nonneg [OF m, of "year d"] dd(1) by (simp add: toordinal_def)
  have "days_before_month (year d) (month d) + day d \<le> (if is_leap (year d) then 366 else 365)"
    using days_before_month_in_year [OF m, of "year d"] dd(2) by (simp split: if_splits)
  then show "toordinal d \<le> days_before_year (year d + 1)"
    by (simp add: toordinal_def days_before_year_step)
qed

lemma date_key_less_iff:
  "date_key a < date_key b \<longleftrightarrow>
     year a < year b \<or>
     (year a = year b \<and> (month a < month b \<or> (month a = month b \<and> day a < day b)))"
  by (auto simp: date_key_def)

lemma date_key_le_iff:
  "date_key a \<le> date_key b \<longleftrightarrow>
     year a < year b \<or>
     (year a = year b \<and> (month a < month b \<or> (month a = month b \<and> day a \<le> day b)))"
  by (auto simp: date_key_def)

lemma date_key_inj: "date_key a = date_key b \<Longrightarrow> a = (b::date)"
  by (simp add: date_key_def)

lemma toordinal_strict_mono:
  assumes a: "valid_date a" and b: "valid_date b" and less: "date_key a < date_key b"
  shows "toordinal a < toordinal b"
proof -
  consider "year a < year b"
    | "year a = year b" "month a < month b"
    | "year a = year b" "month a = month b" "day a < day b"
    using less unfolding date_key_less_iff by blast
  then show ?thesis
  proof cases
    case 1
    then have "days_before_year (year a + 1) \<le> days_before_year (year b)"
      by (intro days_before_year_mono) simp
    then show ?thesis
      using toordinal_year_bounds(2) [OF a] toordinal_year_bounds(1) [OF b] by linarith
  next
    case 2
    have "1 \<le> month a" "month b \<le> 12" "day a \<le> days_in_month (year a) (month a)"
      "1 \<le> day b"
      using a b by (simp_all add: valid_date_def)
    then show ?thesis
      using days_before_month_less [of "month a" "month b" "year a"] 2
      by (simp add: toordinal_def)
  next
    case 3
    then show ?thesis by (simp add: toordinal_def)
  qed
qed

subsection \<open>Evaluating the day count\<close>

lemma year_fraction_ACT365:
  "year_fraction s e ''ACT/365'' = Inr (real_of_int (toordinal e - toordinal s) / 365)"
  by (simp add: year_fraction_def)

lemma year_fraction_ACT360:
  "year_fraction s e ''ACT/360'' = Inr (real_of_int (toordinal e - toordinal s) / 360)"
  by (simp add: year_fraction_def)

lemma year_fraction_30360:
  "year_fraction s e ''30/360'' =
     Inr (real_of_int ((year e - year s) * 360 + (month e - month s) * 30 +
            ((if day s < 30 then day e else min (day e) 30) - min (day s) 30)) / 360)"
  by (simp add: year_fraction_def Let_def)

lemma year_fraction_unsupported:
  "c \<notin> {''ACT/365'', ''ACT/360'', ''30/360''} \<Longrightarrow>
     year_fraction s e c = Inl (InvalidConvention c)"
  by (simp add: year_fraction_def)

lemma year_fraction_supported:
  "c \<in> {''ACT/365'', ''ACT/360'', ''30/360''} \<Longrightarrow> \<exists>t. year_fraction s e c = Inr t"
  using year_fraction_ACT365 year_fraction_ACT360 year_fraction_30360 by blast

subsection \<open>The day count grows with the end date\<close>

lemma days_in_month_le_31:
  assumes "1 \<le> m" "m \<le> 12"
  shows "days_in_month y m \<le> 31"
  using month_cases [OF assms]
  by (elim disjE) (simp_all add: days_in_month_def DAYS_IN_MONTH_def)

lemma valid_date_ranges:
  assumes "valid_date d"
  shows "1 \<le> month d" "month d \<le> 12" "1 \<le> day d" "day d \<le> 31"
proof -
  show m: "1 \<le> month d" "month d \<le> 12" and "1 \<le> day d"
    using assms by (simp_all add: valid_date_def)
  have "day d \<le> days_in_month (year d) (month d)"
    using assms by (simp add: valid_date_def)
  then show "day d \<le> 31"
    using days_in_month_le_31 [OF m, of "year d"] by linarith
qed

lemma toordinal_mono:
  assumes "valid_date a" "valid_date b" "date_key a \<le> date_key b"
  shows "toordinal a \<le> toordinal b"
proof (cases "date_key a = date_key b")
  case True
  then show ?thesis using date_key_inj by auto
next
  case False
  then have "date_key a < date_key b" using assms(3) by simp
  then show ?thesis using toordinal_strict_mono [OF assms(1,2)] by simp
qed

lemma days_30_360_mono:
  assumes a: "valid_date a" and b: "valid_date b" and le: "date_key a \<le> date_key b"
  shows "(year a - year s) * 360 + (month a - month s) * 30 +
            ((if day s < 30 then day a else min (day a) 30) - min (day s) 30)
       \<le> (year b - year s) * 360 + (month b - month s) * 30 +
            ((if day s < 30 then day b else min (day b) 30) - min (day s) 30)"
proof -
  note ra = valid_date_ranges [OF a] and rb = valid_date_ranges [OF b]
  consider "year a < year b"
    | "year a = year b" "month a < month b"
    | "year a = year b" "month a = month b" "day a \<le> day b"
    using le unfolding date_key_le_iff by blast
  then show ?thesis
  proof cases
    case 1
    then show ?thesis using ra rb by (simp add: min_def) 
  next
    case 2
    then show ?thesis using ra rb by (simp add: min_def) 
  next
    case 3
    then show ?thesis by (simp add: min_def)
  qed
qed


lemma year_fraction_Inr_supported:
  assumes "year_fraction s e c = Inr t"
  shows "c \<in> {''ACT/365'', ''ACT/360'', ''30/360''}"
proof (rule ccontr)
  assume "c \<notin> {''ACT/365'', ''ACT/360'', ''30/360''}"
  then have "year_fraction s e c = Inl (InvalidConvention c)"
    by (rule year_fraction_unsupported)
  with assms show False by simp
qed

lemma year_fraction_mono:
  assumes a: "valid_date a" and b: "valid_date b" and le: "date_key a \<le> date_key b"
    and ta: "year_fraction v a c = Inr ta" and tb: "year_fraction v b c = Inr tb"
  shows "ta \<le> tb"
proof -
  have ord: "toordinal a \<le> toordinal b" by (rule toordinal_mono [OF a b le])
  consider "c = ''ACT/365''" | "c = ''ACT/360''" | "c = ''30/360''"
    using year_fraction_Inr_supported [OF ta] by blast
  then show ?thesis
  proof cases
    case 1
    then show ?thesis using ta tb ord by (auto simp: year_fraction_ACT365 divide_right_mono)
  next
    case 2
    then show ?thesis using ta tb ord by (auto simp: year_fraction_ACT360 divide_right_mono)
  next
    case 3
    have "real_of_int ((year a - year v) * 360 + (month a - month v) * 30 +
            ((if day v < 30 then day a else min (day a) 30) - min (day v) 30))
       \<le> real_of_int ((year b - year v) * 360 + (month b - month v) * 30 +
            ((if day v < 30 then day b else min (day b) 30) - min (day v) 30))"
      using days_30_360_mono [OF a b le, of v] by (simp only: of_int_le_iff)
    then show ?thesis
      using ta tb unfolding 3 year_fraction_30360 by (auto simp: divide_right_mono)
  qed
qed

lemma year_fraction_strict_mono:
  assumes a: "valid_date a" and b: "valid_date b" and less: "date_key a < date_key b"
    and c: "c \<in> {''ACT/365'', ''ACT/360''}"
    and ta: "year_fraction v a c = Inr ta" and tb: "year_fraction v b c = Inr tb"
  shows "ta < tb"
proof -
  have ord: "toordinal a < toordinal b" by (rule toordinal_strict_mono [OF a b less])
  consider "c = ''ACT/365''" | "c = ''ACT/360''" using c by blast
  then show ?thesis
  proof cases
    case 1
    then show ?thesis using ta tb ord by (auto simp: year_fraction_ACT365 divide_strict_right_mono)
  next
    case 2
    then show ?thesis using ta tb ord by (auto simp: year_fraction_ACT360 divide_strict_right_mono)
  qed
qed


subsection \<open>The comprehensions of the constructor\<close>

lemma tenors_of_iff':
  "list_all2 (\<lambda>d t. year_fraction v d c = Inr t) ds ts \<longleftrightarrow> tenors_of v c ds = Inr ts"
  by (induction ds arbitrary: ts) (auto simp: list_all2_Cons1 split: sum.splits)

lemma tenors_of_iff:
  "tenors_of v c ds = Inr ts \<longleftrightarrow> list_all2 (\<lambda>d t. year_fraction v d c = Inr t) ds ts"
  by (simp add: tenors_of_iff')

lemma tenors_of_supported:
  assumes "c \<in> {''ACT/365'', ''ACT/360'', ''30/360''}"
  shows "\<exists>ts. tenors_of v c ds = Inr ts"
proof (induction ds)
  case Nil
  show ?case by simp
next
  case (Cons d ds)
  obtain t where "year_fraction v d c = Inr t"
    using year_fraction_supported [OF assms] by blast
  moreover obtain ts where "tenors_of v c ds = Inr ts" using Cons.IH by blast
  ultimately show ?case by simp
qed

lemma tenors_of_length: "tenors_of v c ds = Inr ts \<Longrightarrow> length ts = length ds"
  by (simp add: tenors_of_iff list_all2_lengthD)

lemma rates_of_iff':
  "list_all2 (\<lambda>d r. map_of points d = Some r) ds rs \<longleftrightarrow> rates_of points ds = Inr rs"
  by (induction ds arbitrary: rs)
    (auto simp: list_all2_Cons1 getitem_def split: sum.splits option.splits)

lemma rates_of_iff:
  "rates_of points ds = Inr rs \<longleftrightarrow> list_all2 (\<lambda>d r. map_of points d = Some r) ds rs"
  by (simp add: rates_of_iff')

lemma rates_of_keys:
  assumes "set ds \<subseteq> set (keys points)"
  shows "\<exists>rs. rates_of points ds = Inr rs"
  using assms
proof (induction ds)
  case Nil
  show ?case by simp
next
  case (Cons d ds)
  then have "d \<in> fst ` set points" by (simp add: keys_def)
  then obtain r where "map_of points d = Some r"
    by (meson domD domI dom_map_of_conv_image_fst [THEN equalityD2, THEN subsetD])
  moreover obtain rs where "rates_of points ds = Inr rs" using Cons by auto
  ultimately show ?case by (simp add: getitem_def)
qed

lemma rates_of_length: "rates_of points ds = Inr rs \<Longrightarrow> length rs = length ds"
  by (simp add: rates_of_iff list_all2_lengthD)

lemma set_sorted_dates: "set (sorted_dates ds) = set ds"
  by (simp add: sorted_dates_def)

lemma length_sorted_dates: "length (sorted_dates ds) = length ds"
  by (simp add: sorted_dates_def)

lemma rates_of_sorted_keys: "\<exists>rs. rates_of points (sorted_dates (keys points)) = Inr rs"
  by (rule rates_of_keys) (simp add: set_sorted_dates)

subsection \<open>Construction and build\<close>

lemma init_Inr_base:
  assumes "FundingCurveBuilder_init ois v c cs = Inr b"
  shows "tenors_of v c (sorted_dates (keys ois)) = Inr (ois_tenors b)"
    and "rates_of ois (sorted_dates (keys ois)) = Inr (ois_rates b)"
    and "ois_dates b = sorted_dates (keys ois)"
    and "ois_interp b = None"
    and "cs_interp b = None"
    and "valuation_date b = v"
    and "dc b = c"
  using assms
  by (auto simp: FundingCurveBuilder_init_def Let_def split: sum.splits if_splits)

lemma init_Inr_spread:
  assumes "FundingCurveBuilder_init ois v c cs = Inr b" and "truthy cs"
  shows "\<exists>points ct cr. cs = Some points \<and> points \<noteq> [] \<and>
           tenors_of v c (sorted_dates (keys points)) = Inr ct \<and>
           rates_of points (sorted_dates (keys points)) = Inr cr \<and>
           cs_tenors b = Some ct \<and> cs_rates b = Some cr"
  using assms
  by (auto simp: FundingCurveBuilder_init_def Let_def truthy_def
      split: sum.splits if_splits option.splits)

lemma init_Inr_no_spread:
  assumes "FundingCurveBuilder_init ois v c cs = Inr b" and "\<not> truthy cs"
  shows "cs_tenors b = None" and "cs_rates b = None"
  using assms
  by (auto simp: FundingCurveBuilder_init_def Let_def split: sum.splits if_splits)

lemma init_supported:
  assumes c: "c \<in> {''ACT/365'', ''ACT/360'', ''30/360''}"
  shows "\<exists>b. FundingCurveBuilder_init ois v c cs = Inr b"
proof -
  obtain ts where ts: "tenors_of v c (sorted_dates (keys ois)) = Inr ts"
    using tenors_of_supported [OF c] by blast
  obtain rs where rs: "rates_of ois (sorted_dates (keys ois)) = Inr rs"
    using rates_of_sorted_keys by blast
  show ?thesis
  proof (cases "truthy cs")
    case False
    then show ?thesis by (simp add: FundingCurveBuilder_init_def ts rs)
  next
    case True
    then obtain points where p: "cs = Some points"
      by (auto simp: truthy_def split: option.splits)
    obtain ct where ct: "tenors_of v c (sorted_dates (keys points)) = Inr ct"
      using tenors_of_supported [OF c] by blast
    obtain cr where cr: "rates_of points (sorted_dates (keys points)) = Inr cr"
      using rates_of_sorted_keys by blast
    show ?thesis using True by (simp add: FundingCurveBuilder_init_def ts rs p ct cr)
  qed
qed

lemma interp1d_Inr:
  assumes "length ys = length xs" and "xs \<noteq> []"
  shows "interp1d xs ys = Inr (Interp xs ys)"
  using assms by (cases xs) (simp_all add: interp1d_def)

lemma interp1d_Inr_D:
  assumes "interp1d xs ys = Inr f"
  shows "f = Interp xs ys" and "length ys = length xs" and "xs \<noteq> []"
  using assms by (auto simp: interp1d_def split: if_splits)

subsection \<open>Evaluating the interpolator\<close>

lemma clipped_indices_in_range:
  fixes xs :: "real list" and v :: real
  assumes "xs \<noteq> []" and hi: "hi = clip (searchsorted xs v) 1 (int (length xs) - 1)"
  shows "nat (if hi < 0 then hi + int (length xs) else hi) < length xs"
    and "nat (if hi - 1 < 0 then hi - 1 + int (length xs) else hi - 1) < length xs"
proof -
  have "0 < length xs" using assms(1) by simp
  then have "0 \<le> hi" "hi \<le> int (length xs) - 1"
    by (simp_all add: hi clip_def)
  then show "nat (if hi < 0 then hi + int (length xs) else hi) < length xs"
    and "nat (if hi - 1 < 0 then hi - 1 + int (length xs) else hi - 1) < length xs"
    by auto
qed

lemma fadd_zero_right: "fadd a (Fin 0) = a"
  by (cases a) simp_all

lemma fadd_NaN_left: "fadd NaN a = NaN"
  by (cases a) simp_all

lemma call_linear_single: "call_linear (Interp [x0] [y0]) t = NaN"
  by (simp add: call_linear_def clip_def take_index_def fdiv_def inf_of_sign_def)

lemma call_linear_two:
  assumes "x0 \<noteq> x1"
  shows "call_linear (Interp [x0, x1] [y0, y1]) t = Fin ((y1 - y0) / (x1 - x0) * (t - x0) + y0)"
proof -
  have "clip (searchsorted [x0, x1] t) 1 (int (length [x0, x1]) - 1) = 1"
    by (simp add: clip_def)
  then show ?thesis
    using assms by (simp add: call_linear_def take_index_def fdiv_def)
qed

lemma total_rate_no_spread: "total_rate base None t = call_linear base t"
  by (simp add: total_rate_def fadd_zero_right)

lemma total_rate_spread:
  "total_rate base (Some spread) t = fadd (call_linear base t) (call_linear spread t)"
  by (simp add: total_rate_def)

lemma build_no_spread:
  assumes "cs_tenors b = None" and "cs_interp b = None"
    and "interp1d (ois_tenors b) (ois_rates b) = Inr base"
  shows "build b = Inr (b\<lparr>ois_interp := Some base, cs_interp := None,
                          total_interp := Some (total_rate base None)\<rparr>,
                        total_rate base None)"
  using assms by (simp add: build_def)

lemma build_spread:
  assumes "cs_tenors b = Some ct" and "cs_rates b = Some cr"
    and "interp1d (ois_tenors b) (ois_rates b) = Inr base"
    and "interp1d ct cr = Inr spread"
  shows "build b = Inr (b\<lparr>ois_interp := Some base, cs_interp := Some spread,
                          total_interp := Some (total_rate base (Some spread))\<rparr>,
                        total_rate base (Some spread))"
  using assms by (simp add: build_def)

lemma build_Inr_D:
  assumes "build b = Inr (b', f)"
  shows "\<exists>base ci. interp1d (ois_tenors b) (ois_rates b) = Inr base \<and>
           ois_interp b' = Some base \<and> cs_interp b' = ci \<and> f = total_rate base ci \<and>
           (case cs_tenors b of
              None \<Rightarrow> ci = cs_interp b
            | Some ct \<Rightarrow> \<exists>cr spread. cs_rates b = Some cr \<and> interp1d ct cr = Inr spread \<and>
                          ci = Some spread)"
  using assms
  by (auto simp: build_def split: sum.splits option.splits)

subsection \<open>Builds that succeed\<close>

lemma init_base_arrays:
  assumes "FundingCurveBuilder_init ois v c cs = Inr b"
  shows "length (ois_tenors b) = length ois" and "length (ois_rates b) = length ois"
  using tenors_of_length [OF init_Inr_base(1) [OF assms]]
    rates_of_length [OF init_Inr_base(2) [OF assms]]
  by (simp_all add: length_sorted_dates keys_def)

lemma init_base_interp:
  assumes "FundingCurveBuilder_init ois v c cs = Inr b" and "ois \<noteq> []"
  shows "interp1d (ois_tenors b) (ois_rates b) = Inr (Interp (ois_tenors b) (ois_rates b))"
  using init_base_arrays [OF assms(1)] assms(2) by (intro interp1d_Inr) auto

lemma init_spread_interp:
  assumes "FundingCurveBuilder_init ois v c cs = Inr b" and "truthy cs"
  shows "\<exists>ct cr. cs_tenors b = Some ct \<and> cs_rates b = Some cr \<and>
           interp1d ct cr = Inr (Interp ct cr)"
proof -
  obtain points ct cr where p: "points \<noteq> []"
      "tenors_of v c (sorted_dates (keys points)) = Inr ct"
      "rates_of points (sorted_dates (keys points)) = Inr cr"
      "cs_tenors b = Some ct" "cs_rates b = Some cr"
    using init_Inr_spread [OF assms] by blast
  have "length ct = length points" "length cr = length points"
    using tenors_of_length [OF p(2)] rates_of_length [OF p(3)]
    by (simp_all add: length_sorted_dates keys_def)
  then have "interp1d ct cr = Inr (Interp ct cr)"
    using p(1) by (intro interp1d_Inr) auto
  with p(4,5) show ?thesis by blast
qed

lemma build_succeeds:
  assumes "FundingCurveBuilder_init ois v c cs = Inr b" and "ois \<noteq> []"
  shows "\<exists>b' f. build b = Inr (b', f)"
proof (cases "truthy cs")
  case True
  obtain ct cr where "cs_tenors b = Some ct" "cs_rates b = Some cr"
      "interp1d ct cr = Inr (Interp ct cr)"
    using init_spread_interp [OF assms(1) True] by blast
  then show ?thesis
    using build_spread [OF _ _ init_base_interp [OF assms]] by blast
next
  case False
  show ?thesis
    using build_no_spread [OF init_Inr_no_spread(1) [OF assms(1) False]
        init_Inr_base(5) [OF assms(1)] init_base_interp [OF assms]]
    by blast
qed

lemma built_curve_eq:
  assumes "FundingCurveBuilder_init ois v c cs = Inr b" and "build b = Inr (b', f)"
  shows "built_curve ois v c cs = Inr f"
  using assms by (simp add: built_curve_def)

lemma single_point_arrays:
  assumes "FundingCurveBuilder_init [(d, r)] v c cs = Inr b"
  shows "\<exists>t0. year_fraction v d c = Inr t0 \<and> ois_tenors b = [t0] \<and> ois_rates b = [r]"
  using init_Inr_base(1,2) [OF assms]
  by (auto simp: keys_def sorted_dates_def getitem_def split: sum.splits)

lemma sorted_dates_two:
  assumes "date_key d0 < date_key d1"
  shows "sorted_dates [d0, d1] = [d0, d1]" and "sorted_dates [d1, d0] = [d0, d1]"
  using assms by (simp_all add: sorted_dates_def)

lemmas calendar_defs =
  toordinal_def days_before_year_def days_before_month_def DAYS_BEFORE_MONTH_def
  is_leap_def

lemmas builder_defs =
  FundingCurveBuilder_init_def build_def built_curve_def interp1d_def truthy_def keys_def
  sorted_dates_def date_key_def getitem_def

lemma two_point_init:
  assumes less: "date_key d0 < date_key d1"
    and t0: "year_fraction v d0 c = Inr t0" and t1: "year_fraction v d1 c = Inr t1"
    and ois: "ois = [(d0, r0), (d1, r1)] \<or> ois = [(d1, r1), (d0, r0)]"
  shows "\<exists>b. FundingCurveBuilder_init ois v c None = Inr b \<and>
           ois_tenors b = [t0, t1] \<and> ois_rates b = [r0, r1] \<and>
           cs_tenors b = None \<and> cs_interp b = None"
proof -
  have ne: "d0 \<noteq> d1" using less by auto
  have dates: "sorted_dates (keys ois) = [d0, d1]"
    using ois sorted_dates_two [OF less] by (auto simp: keys_def)
  have tenors: "tenors_of v c [d0, d1] = Inr [t0, t1]"
    by (simp add: t0 t1)
  have rates: "rates_of ois [d0, d1] = Inr [r0, r1]"
    using ois ne by (auto simp: getitem_def)
  show ?thesis
    unfolding FundingCurveBuilder_init_def Let_def dates tenors rates
    by (simp add: truthy_def)
qed

subsection \<open>The year-fraction axis\<close>

lemma sorted_dates_sorted: "sorted (map date_key (sorted_dates ds))"
  by (simp add: sorted_dates_def)

lemma sorted_dates_strict:
  assumes "distinct ds"
  shows "sorted_wrt (<) (map date_key (sorted_dates ds))"
proof -
  have "inj_on date_key (set (sorted_dates ds))"
    by (rule inj_onI) (rule date_key_inj)
  moreover have "distinct (sorted_dates ds)"
    using assms by (simp add: sorted_dates_def)
  ultimately have "distinct (map date_key (sorted_dates ds))"
    by (simp add: distinct_map)
  then show ?thesis
    using sorted_dates_sorted [of ds] by (simp add: strict_sorted_iff)
qed

lemma tenors_of_nth:
  assumes "tenors_of v c ds = Inr ts" and "i < length ds"
  shows "year_fraction v (ds ! i) c = Inr (ts ! i)"
  using list_all2_nthD [OF assms(1) [unfolded tenors_of_iff] assms(2)] by simp

lemma tenors_sorted:
  assumes valid: "list_all valid_date ds"
    and keys: "sorted (map date_key ds)"
    and ts: "tenors_of v c ds = Inr ts"
  shows "sorted ts"
proof -
  have len: "length ts = length ds" by (rule tenors_of_length [OF ts])
  have "ts ! i \<le> ts ! j" if "i < j" "j < length ts" for i j
  proof -
    have i: "i < length ds" and j: "j < length ds" using that len by simp_all
    have "date_key (ds ! i) \<le> date_key (ds ! j)"
      using keys that(1) j by (simp add: sorted_wrt_iff_nth_less)
    moreover have "valid_date (ds ! i)" "valid_date (ds ! j)"
      using valid i j by (simp_all add: list_all_length)
    ultimately show ?thesis
      using year_fraction_mono tenors_of_nth [OF ts i] tenors_of_nth [OF ts j] by blast
  qed
  then show ?thesis by (simp add: sorted_wrt_iff_nth_less)
qed

lemma tenors_strictly_sorted:
  assumes valid: "list_all valid_date ds"
    and keys: "sorted_wrt (<) (map date_key ds)"
    and c: "c \<in> {''ACT/365'', ''ACT/360''}"
    and ts: "tenors_of v c ds = Inr ts"
  shows "sorted_wrt (<) ts"
proof -
  have len: "length ts = length ds" by (rule tenors_of_length [OF ts])
  have "ts ! i < ts ! j" if "i < j" "j < length ts" for i j
  proof -
    have i: "i < length ds" and j: "j < length ds" using that len by simp_all
    have "date_key (ds ! i) < date_key (ds ! j)"
      using keys that(1) j by (simp add: sorted_wrt_iff_nth_less)
    moreover have "valid_date (ds ! i)" "valid_date (ds ! j)"
      using valid i j by (simp_all add: list_all_length)
    ultimately show ?thesis
      using year_fraction_strict_mono [OF _ _ _ c] tenors_of_nth [OF ts i]
        tenors_of_nth [OF ts j]
      by blast
  qed
  then show ?thesis by (simp add: sorted_wrt_iff_nth_less)
qed

lemma list_all_sorted_dates: "list_all P (sorted_dates ds) = list_all P ds"
  by (simp add: list_all_iff set_sorted_dates)

subsection \<open>Evaluating the discount factor\<close>

lemma get_df_eq:
  assumes "year_fraction v d c = Inr t"
  shows "get_df (DiscountFactorService_init f v c) d = Inr (fexp (fmul (fneg (f t)) (Fin t)))"
  using assms by (simp add: get_df_def DiscountFactorService_init_def)

lemma discount_at_zero:
  "fexp (fmul (fneg a) (Fin 0)) = (case a of Fin r \<Rightarrow> Fin 1 | _ \<Rightarrow> NaN)"
  by (cases a) (simp_all add: inf_of_sign_def)

lemma year_fraction_same:
  assumes "c \<in> {''ACT/365'', ''ACT/360'', ''30/360''}"
  shows "year_fraction d d c = Inr 0"
  using assms by (auto simp: year_fraction_ACT365 year_fraction_ACT360 year_fraction_30360)



subsection \<open>Claims about the day count\<close>

text \<open>
  C6. \<^verbatim>\<open>year_fraction\<close> fails with the unsupported-convention error exactly when the
  convention string is none of ACT/365, ACT/360 and 30/360, and returns a number exactly
  when it is one of them.
\<close>

theorem year_fraction_error_iff:
  "(year_fraction start_date end_date c = Inl (InvalidConvention c))
     = (c \<notin> {''ACT/365'', ''ACT/360'', ''30/360''}) \<and>
   (\<exists>t. year_fraction start_date end_date c = Inr t)
     = (c \<in> {''ACT/365'', ''ACT/360'', ''30/360''})"
proof (cases "c \<in> {''ACT/365'', ''ACT/360'', ''30/360''}")
  case True
  then obtain t where "year_fraction start_date end_date c = Inr t"
    using year_fraction_supported by blast
  with True show ?thesis by auto
next
  case False
  then have "year_fraction start_date end_date c = Inl (InvalidConvention c)"
    by (rule year_fraction_unsupported)
  with False show ?thesis by auto
qed

text \<open>
  C7. The year fraction from a date to itself is 0 under each of the three conventions;
  the date is arbitrary, so the day of month may be 31, where under 30/360 both
  \<open>D1\<close> and \<open>D2\<close> are clamped to 30.
\<close>

theorem year_fraction_same_date:
  "year_fraction d d ''ACT/365'' = Inr 0 \<and>
   year_fraction d d ''ACT/360'' = Inr 0 \<and>
   year_fraction d d ''30/360'' = Inr 0"
  by (simp add: year_fraction_ACT365 year_fraction_ACT360 year_fraction_30360)

subsection \<open>Claims about the curve builder\<close>

text \<open>
  C3. With an empty base mapping and a supported convention, whatever the spread
  mapping, the constructor returns a builder with empty arrays and no interpolator, and
  \<^verbatim>\<open>build\<close> fails with the insufficient-data error of the first interpolator's
  constructor: no interpolator is ever made or evaluated.
\<close>

theorem empty_base_insufficient_data:
  assumes "c \<in> {''ACT/365'', ''ACT/360'', ''30/360''}"
  shows "\<exists>b. FundingCurveBuilder_init [] v c cs = Inr b \<and>
           ois_tenors b = [] \<and> ois_rates b = [] \<and> ois_interp b = None \<and>
           build b = Inl InsufficientData"
proof -
  obtain b where b: "FundingCurveBuilder_init [] v c cs = Inr b"
    using init_supported [OF assms] by blast
  have "ois_tenors b = []" "ois_rates b = []"
    using init_Inr_base(1,2) [OF b] by (simp_all add: keys_def sorted_dates_def)
  moreover from this have "build b = Inl InsufficientData"
    by (simp add: build_def interp1d_def)
  ultimately show ?thesis using b init_Inr_base(4) [OF b] by blast
qed

theorem empty_base_insufficient_data_witness:
  "''ACT/365'' \<in> {''ACT/365'', ''ACT/360'', ''30/360''} \<and>
   (\<exists>b. FundingCurveBuilder_init [] (mk_date 2024 1 1) ''ACT/365'' None = Inr b \<and>
        ois_tenors b = [] \<and> ois_rates b = [] \<and> ois_interp b = None \<and>
        build b = Inl InsufficientData)"
  using empty_base_insufficient_data [of "''ACT/365''" "mk_date 2024 1 1" None] by simp

text \<open>
  C2. After a successful build, the returned function is the sum of the base
  interpolator (over the builder's base arrays) and the spread interpolator (over its
  spread arrays) when spread points were given, and the base interpolator alone, which
  is the same as adding exactly 0, when they were not.
\<close>

theorem composed_rate_function:
  assumes "FundingCurveBuilder_init ois v c cs = Inr b" and "build b = Inr (b', f)"
  shows "\<exists>base. interp1d (ois_tenors b) (ois_rates b) = Inr base \<and>
           ois_interp b' = Some base \<and>
           (if truthy cs
            then \<exists>ct cr spread. cs_tenors b = Some ct \<and> cs_rates b = Some cr \<and>
                   interp1d ct cr = Inr spread \<and> cs_interp b' = Some spread \<and>
                   f t = fadd (call_linear base t) (call_linear spread t)
            else cs_interp b' = None \<and> f t = call_linear base t \<and>
                   f t = fadd (call_linear base t) (Fin 0))"
proof -
  obtain base ci where base: "interp1d (ois_tenors b) (ois_rates b) = Inr base"
      "ois_interp b' = Some base" "cs_interp b' = ci" "f = total_rate base ci"
    and ci: "case cs_tenors b of
              None \<Rightarrow> ci = cs_interp b
            | Some ct \<Rightarrow> \<exists>cr spread. cs_rates b = Some cr \<and> interp1d ct cr = Inr spread \<and>
                          ci = Some spread"
    using build_Inr_D [OF assms(2)] by blast
  show ?thesis
  proof (cases "truthy cs")
    case True
    obtain ct cr where "cs_tenors b = Some ct" "cs_rates b = Some cr"
      using init_Inr_spread [OF assms(1) True] by blast
    with ci base True show ?thesis by (auto simp: total_rate_spread)
  next
    case False
    have "cs_tenors b = None" by (rule init_Inr_no_spread(1) [OF assms(1) False])
    with ci have "ci = None" using init_Inr_base(5) [OF assms(1)] by simp
    with base False show ?thesis by (simp add: total_rate_no_spread fadd_zero_right)
  qed
qed



theorem composed_rate_function_witness:
  "\<exists>b b' f base spread.
     FundingCurveBuilder_init sample_ois sample_valuation ''ACT/365'' (Some sample_cs) = Inr b \<and>
     build b = Inr (b', f) \<and>
     interp1d (ois_tenors b) (ois_rates b) = Inr base \<and> cs_interp b' = Some spread \<and>
     f 1 = fadd (call_linear base 1) (call_linear spread 1)"
proof -
  obtain b where b:
    "FundingCurveBuilder_init sample_ois sample_valuation ''ACT/365'' (Some sample_cs) = Inr b"
    using init_supported [of "''ACT/365''" sample_ois sample_valuation "Some sample_cs"] by auto
  obtain b' f where f: "build b = Inr (b', f)"
    using build_succeeds [OF b] by auto
  have "truthy (Some sample_cs)" by (simp add: truthy_def)
  then show ?thesis
    using composed_rate_function [OF b f, of 1] b f by (simp only: if_True) blast
qed

text \<open>
  C10. An empty spread mapping builds the very builder that no spread mapping builds,
  so every later behaviour is the same. With a supported convention and a base mapping
  that is not empty, construction and build succeed, no spread interpolator is set, and
  the returned function is the base interpolator at every point.
\<close>

theorem empty_spread_as_none:
  "FundingCurveBuilder_init ois v c (Some []) = FundingCurveBuilder_init ois v c None \<and>
   built_curve ois v c (Some []) = built_curve ois v c None \<and>
   (c \<in> {''ACT/365'', ''ACT/360'', ''30/360''} \<longrightarrow> ois \<noteq> [] \<longrightarrow>
     (\<exists>b b' base.
        FundingCurveBuilder_init ois v c (Some []) = Inr b \<and>
        cs_tenors b = None \<and> cs_rates b = None \<and>
        interp1d (ois_tenors b) (ois_rates b) = Inr base \<and>
        build b = Inr (b', total_rate base None) \<and>
        cs_interp b' = None \<and>
        (\<forall>t. total_rate base None t = call_linear base t)))"
proof -
  have eq: "FundingCurveBuilder_init ois v c (Some []) = FundingCurveBuilder_init ois v c None"
    by (simp add: FundingCurveBuilder_init_def truthy_def Let_def split: sum.splits)
  have "\<exists>b b' base.
        FundingCurveBuilder_init ois v c (Some []) = Inr b \<and>
        cs_tenors b = None \<and> cs_rates b = None \<and>
        interp1d (ois_tenors b) (ois_rates b) = Inr base \<and>
        build b = Inr (b', total_rate base None) \<and>
        cs_interp b' = None \<and>
        (\<forall>t. total_rate base None t = call_linear base t)"
    if c: "c \<in> {''ACT/365'', ''ACT/360'', ''30/360''}" and ois: "ois \<noteq> []"
  proof -
    obtain b where b: "FundingCurveBuilder_init ois v c (Some []) = Inr b"
      using init_supported [OF c] by blast
    have falsy: "\<not> truthy (Some [])" by (simp add: truthy_def)
    note none = init_Inr_no_spread [OF b falsy]
    note base = init_base_interp [OF b ois]
    note bld = build_no_spread [OF none(1) init_Inr_base(5) [OF b] base]
    show ?thesis
      using b none base bld by (auto simp: total_rate_no_spread)
  qed
  then show ?thesis using eq by (simp add: built_curve_def)
qed

theorem empty_spread_as_none_witness:
  "FundingCurveBuilder_init sample_ois sample_valuation ''ACT/365'' (Some [])
     = FundingCurveBuilder_init sample_ois sample_valuation ''ACT/365'' None \<and>
   built_curve sample_ois sample_valuation ''ACT/365'' (Some [])
     = built_curve sample_ois sample_valuation ''ACT/365'' None \<and>
   (\<exists>b b' base.
        FundingCurveBuilder_init sample_ois sample_valuation ''ACT/365'' (Some []) = Inr b \<and>
        cs_tenors b = None \<and> cs_rates b = None \<and>
        interp1d (ois_tenors b) (ois_rates b) = Inr base \<and>
        build b = Inr (b', total_rate base None) \<and>
        cs_interp b' = None \<and>
        (\<forall>t. total_rate base None t = call_linear base t))"
proof -
  have c: "''ACT/365'' \<in> {''ACT/365'', ''ACT/360'', ''30/360''}" by simp
  have ois: "sample_ois \<noteq> []" by simp
  show ?thesis
    using empty_spread_as_none [of sample_ois sample_valuation "''ACT/365''"] c ois by blast
qed

text \<open>
  C4. With a base mapping of exactly one point and a supported convention, whatever the
  spread mapping, construction and build succeed, but the returned function is not the
  flat line at the point's rate: the interpolator's two indices both select the single
  knot, its slope is \<open>0 / 0\<close>, and the composed rate is NaN at every point.
\<close>

theorem single_point_curve_is_nan:
  assumes c: "c \<in> {''ACT/365'', ''ACT/360'', ''30/360''}"
  shows "\<exists>b b' f. FundingCurveBuilder_init [(d, r)] v c cs = Inr b \<and>
           build b = Inr (b', f) \<and> built_curve [(d, r)] v c cs = Inr f \<and>
           (\<forall>t. f t = NaN)"
proof -
  obtain b where b: "FundingCurveBuilder_init [(d, r)] v c cs = Inr b"
    using init_supported [OF c] by blast
  obtain b' f where f: "build b = Inr (b', f)"
    using build_succeeds [OF b] by auto
  obtain t0 where arrays: "ois_tenors b = [t0]" "ois_rates b = [r]"
    using single_point_arrays [OF b] by blast
  obtain base ci where "interp1d (ois_tenors b) (ois_rates b) = Inr base"
      and tr: "f = total_rate base ci"
    using build_Inr_D [OF f] by blast
  then have "base = Interp [t0] [r]"
    using interp1d_Inr_D(1) arrays by metis
  then have "f t = NaN" for t
    by (simp add: tr total_rate_def call_linear_single fadd_NaN_left)
  then show ?thesis using b f built_curve_eq [OF b f] by blast
qed

theorem single_point_curve_is_nan_witness:
  "''ACT/365'' \<in> {''ACT/365'', ''ACT/360'', ''30/360''} \<and>
   (\<exists>b b' f. FundingCurveBuilder_init sample_single sample_valuation ''ACT/365'' None = Inr b \<and>
           build b = Inr (b', f) \<and>
           built_curve sample_single sample_valuation ''ACT/365'' None = Inr f \<and>
           (\<forall>t. f t = NaN))"
  using single_point_curve_is_nan [of "''ACT/365''" "mk_date 2025 6 30" "3 / 100"
      sample_valuation None]
  by simp

text \<open>
  The claim C4 as stated fails on the sample single-point mapping: the curve builds,
  and its value at 1 is NaN, not the point's rate 0.03.
\<close>

theorem single_point_curve_counterexample:
  "built_curve sample_single sample_valuation ''ACT/365'' None
     = Inr (total_rate (Interp [546 / 365] [3 / 100]) None) \<and>
   total_rate (Interp [546 / 365] [3 / 100]) None 1 = NaN \<and>
   total_rate (Interp [546 / 365] [3 / 100]) None 1 \<noteq> Fin (3 / 100)"
  by (simp add: builder_defs year_fraction_ACT365 calendar_defs total_rate_def
      call_linear_single)

text \<open>
  C5. For a base mapping of exactly two dates whose year fractions are \<open>t0 < t1\<close>, with
  rates \<open>r0\<close> and \<open>r1\<close>, in either insertion order and with no spread, the curve builds
  and its value at every \<open>t\<close>, inside the knot range or outside it, is the finite number
  \<open>r0 + (r1 - r0) * (t - t0) / (t1 - t0)\<close>.
\<close>

theorem two_point_curve_is_affine:
  assumes d0: "valid_date d0" and d1: "valid_date d1"
    and t0: "year_fraction v d0 c = Inr t0" and t1: "year_fraction v d1 c = Inr t1"
    and less: "t0 < t1"
    and ois: "ois = [(d0, r0), (d1, r1)] \<or> ois = [(d1, r1), (d0, r0)]"
  shows "\<exists>f. built_curve ois v c None = Inr f \<and>
           (\<forall>t. f t = Fin (r0 + (r1 - r0) * (t - t0) / (t1 - t0)))"
proof -
  have "date_key d0 < date_key d1"
  proof (rule ccontr)
    assume "\<not> date_key d0 < date_key d1"
    then have "date_key d1 \<le> date_key d0" by simp
    then have "t1 \<le> t0" by (rule year_fraction_mono [OF d1 d0 _ t1 t0])
    with less show False by simp
  qed
  then obtain b where b: "FundingCurveBuilder_init ois v c None = Inr b"
      and arrays: "ois_tenors b = [t0, t1]" "ois_rates b = [r0, r1]"
      and none: "cs_tenors b = None" "cs_interp b = None"
    using two_point_init [OF _ t0 t1 ois] by blast
  have base: "interp1d (ois_tenors b) (ois_rates b) = Inr (Interp [t0, t1] [r0, r1])"
    by (simp add: arrays interp1d_def)
  note bld = build_no_spread [OF none base]
  have "total_rate (Interp [t0, t1] [r0, r1]) None t
          = Fin (r0 + (r1 - r0) * (t - t0) / (t1 - t0))" for t
    using less by (simp add: total_rate_no_spread call_linear_two)
  then show ?thesis using built_curve_eq [OF b bld] by blast
qed

theorem two_point_curve_is_affine_witness:
  "valid_date (mk_date 2025 1 1) \<and> valid_date (mk_date 2026 1 1) \<and>
   year_fraction sample_valuation (mk_date 2025 1 1) ''ACT/365'' = Inr (366 / 365) \<and>
   year_fraction sample_valuation (mk_date 2026 1 1) ''ACT/365'' = Inr (731 / 365) \<and>
   (366 / 365 :: real) < 731 / 365 \<and>
   (\<exists>f. built_curve sample_ois sample_valuation ''ACT/365'' None = Inr f \<and>
        (\<forall>t. f t = Fin (3 / 100 + (7 / 200 - 3 / 100) * (t - 366 / 365) / (731 / 365 - 366 / 365))))"
proof -
  have d0: "valid_date (mk_date 2025 1 1)" and d1: "valid_date (mk_date 2026 1 1)"
    by (simp_all add: valid_date_def days_in_month_def DAYS_IN_MONTH_def)
  have t0: "year_fraction sample_valuation (mk_date 2025 1 1) ''ACT/365'' = Inr (366 / 365)"
    and t1: "year_fraction sample_valuation (mk_date 2026 1 1) ''ACT/365'' = Inr (731 / 365)"
    by (simp_all add: year_fraction_ACT365 calendar_defs)
  have less: "(366 / 365 :: real) < 731 / 365" by simp
  show ?thesis
    using two_point_curve_is_affine [OF d0 d1 t0 t1 less, of sample_ois "3 / 100" "7 / 200"]
      d0 d1 t0 t1 less
    by simp
qed

text \<open>
  C9. For a base mapping of valid, pairwise distinct dates and a supported convention,
  construction succeeds and the year-fraction axis of the date-sorted points is
  non-decreasing; under ACT/365 and ACT/360 it is strictly increasing. Under 30/360 two
  distinct dates can have the same year fraction, so the axis need not be strictly
  increasing there.
\<close>

theorem year_fraction_axis_sorted:
  assumes valid: "list_all valid_date (keys ois)"
    and dist: "distinct (keys ois)"
    and c: "c \<in> {''ACT/365'', ''ACT/360'', ''30/360''}"
  shows "\<exists>b. FundingCurveBuilder_init ois v c cs = Inr b \<and>
           length (ois_tenors b) = length ois \<and>
           sorted (ois_tenors b) \<and>
           (c \<in> {''ACT/365'', ''ACT/360''} \<longrightarrow> sorted_wrt (<) (ois_tenors b))"
proof -
  obtain b where b: "FundingCurveBuilder_init ois v c cs = Inr b"
    using init_supported [OF c] by blast
  note ts = init_Inr_base(1) [OF b]
  have valid': "list_all valid_date (sorted_dates (keys ois))"
    using valid by (simp add: list_all_sorted_dates)
  have "sorted (ois_tenors b)"
    by (rule tenors_sorted [OF valid' sorted_dates_sorted ts])
  moreover have "sorted_wrt (<) (ois_tenors b)" if "c \<in> {''ACT/365'', ''ACT/360''}"
    by (rule tenors_strictly_sorted [OF valid' sorted_dates_strict [OF dist] that ts])
  ultimately show ?thesis using b init_base_arrays(1) [OF b] by blast
qed

theorem year_fraction_axis_sorted_witness:
  "valid_date (mk_date 2026 1 1) \<and> valid_date (mk_date 2025 1 1) \<and>
   distinct (keys sample_ois) \<and>
   (\<exists>b. FundingCurveBuilder_init sample_ois sample_valuation ''ACT/365'' None = Inr b \<and>
        length (ois_tenors b) = 2 \<and> sorted (ois_tenors b) \<and> sorted_wrt (<) (ois_tenors b))"
proof -
  have v1: "valid_date (mk_date 2026 1 1)" and v2: "valid_date (mk_date 2025 1 1)"
    by (simp_all add: valid_date_def days_in_month_def DAYS_IN_MONTH_def)
  then have valid: "list_all valid_date (keys sample_ois)"
    by (simp add: keys_def)
  have dist: "distinct (keys sample_ois)" by (simp add: keys_def)
  have c: "''ACT/365'' \<in> {''ACT/365'', ''ACT/360'', ''30/360''}" by simp
  obtain b where "FundingCurveBuilder_init sample_ois sample_valuation ''ACT/365'' None = Inr b"
      "length (ois_tenors b) = length sample_ois" "sorted (ois_tenors b)"
      "''ACT/365'' \<in> {''ACT/365'', ''ACT/360''} \<longrightarrow> sorted_wrt (<) (ois_tenors b)"
    using year_fraction_axis_sorted [OF valid dist c, of sample_valuation None] by blast
  then have "FundingCurveBuilder_init sample_ois sample_valuation ''ACT/365'' None = Inr b \<and>
        length (ois_tenors b) = 2 \<and> sorted (ois_tenors b) \<and> sorted_wrt (<) (ois_tenors b)"
    by simp
  then show ?thesis using v1 v2 dist by blast
qed

text \<open>
  The claim C9 as stated fails under 30/360: valued on 2024-01-01, the distinct dates
  2024-01-31 and 2024-02-01 both have the year fraction \<open>30 / 360\<close>, so the axis has two
  equal entries.
\<close>

theorem year_fraction_axis_counterexample:
  "valid_date (mk_date 2024 1 31) \<and> valid_date (mk_date 2024 2 1) \<and>
   distinct (keys [(mk_date 2024 1 31, 3 / 100), (mk_date 2024 2 1, 7 / 200)]) \<and>
   FundingCurveBuilder_init [(mk_date 2024 1 31, 3 / 100), (mk_date 2024 2 1, 7 / 200)]
       sample_valuation ''30/360'' None
     = Inr \<lparr>valuation_date = sample_valuation, dc = ''30/360'',
            ois_dates = [mk_date 2024 1 31, mk_date 2024 2 1],
            ois_tenors = [1 / 12, 1 / 12], ois_rates = [3 / 100, 7 / 200],
            ois_interp = None, cs_interp = None, cs_dates = None, cs_tenors = None,
            cs_rates = None, total_interp = None\<rparr> \<and>
   \<not> sorted_wrt (<) [1 / 12, 1 / 12 :: real]"
proof -
  have valid: "valid_date (mk_date 2024 1 31)" "valid_date (mk_date 2024 2 1)"
    by (simp_all add: valid_date_def days_in_month_def DAYS_IN_MONTH_def is_leap_def)
  have dist: "distinct (keys [(mk_date 2024 1 31, 3 / 100), (mk_date 2024 2 1, 7 / 200)])"
    by (simp add: keys_def)
  have init: "FundingCurveBuilder_init [(mk_date 2024 1 31, 3 / 100), (mk_date 2024 2 1, 7 / 200)]
       sample_valuation ''30/360'' None
     = Inr \<lparr>valuation_date = sample_valuation, dc = ''30/360'',
            ois_dates = [mk_date 2024 1 31, mk_date 2024 2 1],
            ois_tenors = [1 / 12, 1 / 12], ois_rates = [3 / 100, 7 / 200],
            ois_interp = None, cs_interp = None, cs_dates = None, cs_tenors = None,
            cs_rates = None, total_interp = None\<rparr>"
    by (simp add: builder_defs year_fraction_30360)
  have equal: "\<not> sorted_wrt (<) [1 / 12, 1 / 12 :: real]"
    by (simp del: sorted_wrt.simps add: strict_sorted_iff)
  show ?thesis
    using valid dist init equal by (intro conjI)
qed

subsection \<open>Claims about the discount factor service\<close>

text \<open>
  C1. For a supported convention the year fraction \<open>t\<close> from the valuation date to the
  target date exists, and \<^verbatim>\<open>get_df\<close> returns the float \<open>exp (- r * t)\<close> for the rate
  \<open>r\<close> that the rate function gives at \<open>t\<close>; for a finite rate this is the real
  number \<open>exp (- r * t)\<close>. At the valuation date itself the year fraction is 0 and the
  result is 1 when the rate at 0 is finite, and NaN when it is NaN or infinite, since
  the product of 0 with these is NaN.
\<close>

theorem get_df_formula:
  assumes c: "c \<in> {''ACT/365'', ''ACT/360'', ''30/360''}"
  shows "(\<exists>t. year_fraction v d c = Inr t \<and>
            get_df (DiscountFactorService_init f v c) d
              = Inr (fexp (fmul (fneg (f t)) (Fin t))) \<and>
            (\<forall>r. f t = Fin r \<longrightarrow>
               get_df (DiscountFactorService_init f v c) d = Inr (Fin (exp (- r * t))))) \<and>
         year_fraction v v c = Inr 0 \<and>
         get_df (DiscountFactorService_init f v c) v
           = Inr (case f 0 of Fin r \<Rightarrow> Fin 1 | _ \<Rightarrow> NaN)"
proof -
  obtain t where t: "year_fraction v d c = Inr t"
    using year_fraction_supported [OF c] by blast
  note df = get_df_eq [OF t, of f]
  have "get_df (DiscountFactorService_init f v c) d = Inr (Fin (exp (- r * t)))"
    if "f t = Fin r" for r
    using df that by simp
  moreover note zero = year_fraction_same [OF c, of v]
  moreover have "get_df (DiscountFactorService_init f v c) v
           = Inr (case f 0 of Fin r \<Rightarrow> Fin 1 | _ \<Rightarrow> NaN)"
    using get_df_eq [OF zero, of f] by (simp only: discount_at_zero)
  ultimately show ?thesis using t df by blast
qed

theorem get_df_formula_witness:
  "''ACT/365'' \<in> {''ACT/365'', ''ACT/360'', ''30/360''} \<and>
   year_fraction sample_valuation (mk_date 2025 1 1) ''ACT/365'' = Inr (366 / 365) \<and>
   get_df (DiscountFactorService_init (\<lambda>t. Fin (3 / 100)) sample_valuation ''ACT/365'')
       (mk_date 2025 1 1)
     = Inr (Fin (exp (- (3 / 100) * (366 / 365)))) \<and>
   get_df (DiscountFactorService_init (\<lambda>t. Fin (3 / 100)) sample_valuation ''ACT/365'')
       sample_valuation
     = Inr (Fin 1)"
proof -
  have c: "''ACT/365'' \<in> {''ACT/365'', ''ACT/360'', ''30/360''}" by simp
  have t: "year_fraction sample_valuation (mk_date 2025 1 1) ''ACT/365'' = Inr (366 / 365)"
    by (simp add: year_fraction_ACT365 calendar_defs)
  show ?thesis
    using get_df_formula [OF c, of sample_valuation "mk_date 2025 1 1" "\<lambda>t. Fin (3 / 100)"] t
    by auto
qed

text \<open>
  The claim C1 as stated fails for the curve built from the sample single-point mapping:
  its rate at 0 is NaN, so the discount factor at the valuation date is NaN, not 1.
\<close>

theorem get_df_valuation_date_counterexample:
  "built_curve sample_single sample_valuation ''ACT/365'' None
     = Inr (total_rate (Interp [546 / 365] [3 / 100]) None) \<and>
   year_fraction sample_valuation sample_valuation ''ACT/365'' = Inr 0 \<and>
   get_df (DiscountFactorService_init (total_rate (Interp [546 / 365] [3 / 100]) None)
       sample_valuation ''ACT/365'') sample_valuation
     = Inr NaN \<and>
   Inr NaN \<noteq> (Inr (Fin 1) :: error + npfloat)"
proof -
  have curve: "built_curve sample_single sample_valuation ''ACT/365'' None
     = Inr (total_rate (Interp [546 / 365] [3 / 100]) None)"
    by (simp add: builder_defs year_fraction_ACT365 calendar_defs)
  have zero: "year_fraction sample_valuation sample_valuation ''ACT/365'' = Inr 0"
    by (simp add: year_fraction_ACT365)
  have "get_df (DiscountFactorService_init (total_rate (Interp [546 / 365] [3 / 100]) None)
       sample_valuation ''ACT/365'') sample_valuation = Inr NaN"
    by (simp add: get_df_eq [OF zero] total_rate_def call_linear_single)
  then show ?thesis using curve zero by simp
qed




end
